theory Spec2Isabelle
  imports Complex_Main "HOL-Library.AList" "HOL-Library.Char_ord"
    "HOL-Library.List_Lexorder" "HOL-Library.Product_Lexorder"
begin

section \<open>Overview\<close>

text \<open>
  A shallow embedding of \<^verbatim>\<open>textmap/tokenizers.py\<close>: the tokenizers that turn documents
  into a structure document, sentence, token and then contract bigrams, iteration by
  iteration, into multi-word tokens.

  The file calls three library operations whose behaviour decides most properties: NLTK's
  \<^verbatim>\<open>MWETokenizer\<close>, its \<^verbatim>\<open>BigramCollocationFinder\<close> and the measure
  \<^verbatim>\<open>BigramAssocMeasures.likelihood_ratio\<close>. They are not part of the repository; they
  are embedded from the library's code (NLTK 3), whose Python, shortened, stands before
  each definition. The sentence and word splitters are parameters.
  Python floats are real numbers here; what is kept of the floats is where an operation
  raises, and the values \<^verbatim>\<open>nan\<close>, \<^verbatim>\<open>inf\<close> and \<^verbatim>\<open>-inf\<close> of the configured threshold.
  An exception is the left summand of a result.
\<close>

section \<open>The token structure\<close>

text \<open>
  \<^verbatim>\<open>textmap/tokenizers.py\<close> keeps, in the attribute \<^verbatim>\<open>tokens_by_sent_by_doc_\<close>, a list
  of documents; a document is a list of sentences and a sentence a list of tokens (Python
  strings). The attribute is \<^verbatim>\<open>None\<close> after \<^verbatim>\<open>BaseTokenizer.fit\<close>.
\<close>

type_synonym token = string

type_synonym sentence = "token list"

type_synonym document = "sentence list"

type_synonym corpus = "document list"

text \<open>
  The exceptions of the model. \<open>ValueError\<close> is what \<^verbatim>\<open>math.log\<close> raises outside its
  domain and \<open>ZeroDivisionError\<close> what a float division by zero raises.
  \<open>ConfigurationError\<close> is the error of section 7 of the specification; no statement of
  \<^verbatim>\<open>tokenizers.py\<close> raises it.
\<close>

datatype error = ValueError | ZeroDivisionError | ConfigurationError

section \<open>The multi-word-expression tokenizer of the toolkit\<close>

text \<open>
  \<^verbatim>\<open>NLTKTokenizer.fit\<close> contracts with \<^verbatim>\<open>MWETokenizer(mwes).tokenize_sents\<close>
  (lines 133 to 136). The class is NLTK's (\<^verbatim>\<open>nltk/tokenize/mwe.py\<close>, with the trie of
  \<^verbatim>\<open>nltk/util.py\<close>); it is embedded here as the library defines it:
  \<^verbatim>\<open>
  class Trie(dict):
      LEAF = True
      def __init__(self, strings=None):
          super().__init__()
          if strings:
              for string in strings:
                  self.insert(string)
      def insert(self, string):
          if len(string):
              self[string[0]].insert(string[1:])
          else:
              self[Trie.LEAF] = None
      def __missing__(self, key):
          self[key] = Trie()
          return self[key]
  \<close>
  A node is the flag "the key LEAF is present" and the children in insertion order.
\<close>

datatype trie = Trie (leaf: bool) (kids: "(token \<times> trie) list")

definition trie_get :: "trie \<Rightarrow> token \<Rightarrow> trie option" where
  "trie_get t w = map_of (kids t) w"

fun trie_insert :: "token list \<Rightarrow> trie \<Rightarrow> trie" where
  "trie_insert [] t = Trie True (kids t)"
| "trie_insert (w # ws) t =
     Trie (leaf t)
       (AList.update w
          (trie_insert ws (case trie_get t w of None \<Rightarrow> Trie False [] | Some c \<Rightarrow> c))
          (kids t))"

definition Trie_init :: "token list list \<Rightarrow> trie" where
  "Trie_init strings = foldl (\<lambda>t s. trie_insert s t) (Trie False []) strings"

text \<open>
  \<^verbatim>\<open>
  class MWETokenizer(TokenizerI):
      def __init__(self, mwes=None, separator="_"):
          if not mwes:
              mwes = []
          self._mwes = Trie(mwes)
          self._separator = separator

      def tokenize(self, text):
          i = 0
          n = len(text)
          result = []
          while i < n:
              if text[i] in self._mwes:
                  # possible MWE match
                  j = i
                  trie = self._mwes
                  last_match = -1
                  while j < n and text[j] in trie:
                      trie = trie[text[j]]
                      j = j + 1
                      if Trie.LEAF in trie:
                          last_match = j
                  else:
                      if last_match > -1:
                          j = last_match
                      if Trie.LEAF in trie or last_match > -1:
                          # success!
                          result.append(self._separator.join(text[i:j]))
                          i = j
                      else:
                          # no match, so backtrack
                          result.append(text[i])
                          i += 1
              else:
                  result.append(text[i])
                  i += 1
          return result

      # TokenizerI
      def tokenize_sents(self, strings):
          return [self.tokenize(s) for s in strings]
  \<close>
  The inner loop never leaves through \<^verbatim>\<open>break\<close>, so its \<^verbatim>\<open>else\<close> branch always runs.
  \<open>walk\<close> is the inner loop, from the values of \<^verbatim>\<open>j\<close>, \<^verbatim>\<open>trie\<close> and
  \<^verbatim>\<open>last_match\<close> at its head to their values at its end; \<open>tokenize_loop\<close> is the outer
  loop on \<^verbatim>\<open>i\<close> and \<^verbatim>\<open>result\<close>. A slice \<^verbatim>\<open>text[i:j]\<close> with \<^verbatim>\<open>0 <= i\<close> is
  \<open>slice text i j\<close>.
\<close>

record mwe_tokenizer =
  mwes :: trie
  separator :: string

definition MWETokenizer :: "token list list \<Rightarrow> mwe_tokenizer" where
  "MWETokenizer ms = \<lparr>mwes = Trie_init ms, separator = ''_''\<rparr>"

fun join :: "string \<Rightarrow> string list \<Rightarrow> string" where
  "join sep [] = []"
| "join sep [x] = x"
| "join sep (x # y # r) = x @ sep @ join sep (y # r)"

definition slice :: "'a list \<Rightarrow> nat \<Rightarrow> nat \<Rightarrow> 'a list" where
  "slice xs i j = take (j - i) (drop i xs)"

function walk :: "token list \<Rightarrow> nat \<Rightarrow> trie \<Rightarrow> int \<Rightarrow> nat \<times> trie \<times> int" where
  "walk text j t last_match =
     (if j < length text then
        (case trie_get t (text ! j) of
           None \<Rightarrow> (j, t, last_match)
         | Some t' \<Rightarrow>
             walk text (j + 1) t' (if leaf t' then int (j + 1) else last_match))
      else (j, t, last_match))"
  by pat_completeness auto

termination
  by (relation "measure (\<lambda>(text, j, t, l). length text - j)") auto

lemma walk_bounds:
  "walk ws j t l = (j', t', l') \<Longrightarrow> j \<le> j' \<and> (l' = l \<or> int j < l')"
proof (induction ws j t l rule: walk.induct)
  case (1 ws j t l)
  show ?case
  proof (cases "j < length ws")
    case False
    with "1.prems" show ?thesis by simp
  next
    case True
    show ?thesis
    proof (cases "trie_get t (ws ! j)")
      case None
      with True "1.prems" show ?thesis by simp
    next
      case (Some c)
      with True "1.prems"
      have w: "walk ws (j + 1) c (if leaf c then int (j + 1) else l) = (j', t', l')"
        by simp
      from "1.IH" [OF True Some w]
      show ?thesis by (auto split: if_splits)
    qed
  qed
qed

declare walk.simps [simp del]

lemma walk_advances:
  assumes "i < length ws" and "trie_get t (ws ! i) \<noteq> None"
    and "(j', t', l') = walk ws i t (- 1)"
  shows "length ws - j' < length ws - i \<and>
    (l' = - 1 \<or> (- 1 < l' \<and> length ws - nat l' < length ws - i))"
proof -
  from assms(2) obtain c where c: "trie_get t (ws ! i) = Some c" by auto
  with assms(1,3)
  have "walk ws (i + 1) c (if leaf c then int (i + 1) else - 1) = (j', t', l')"
    by (simp add: walk.simps [of ws i])
  from walk_bounds [OF this]
  have b: "i + 1 \<le> j'" "l' = (if leaf c then int (i + 1) else - 1) \<or> int (i + 1) < l'"
    by simp_all
  from b(1) assms(1) have "length ws - j' < length ws - i" by arith
  moreover from b(2) assms(1)
  have "l' = - 1 \<or> (- 1 < l' \<and> length ws - nat l' < length ws - i)"
    by (cases "leaf c") (simp_all, arith+)
  ultimately show ?thesis by simp
qed

function tokenize_loop ::
  "mwe_tokenizer \<Rightarrow> token list \<Rightarrow> nat \<Rightarrow> token list \<Rightarrow> token list" where
  "tokenize_loop self text i result =
     (if i < length text then
        (if trie_get (mwes self) (text ! i) \<noteq> None then
           (case walk text i (mwes self) (- 1) of
              (j0, t, last_match) \<Rightarrow>
                (let j = (if last_match > - 1 then nat last_match else j0) in
                 if leaf t \<or> last_match > - 1 then
                   tokenize_loop self text j
                     (result @ [join (separator self) (slice text i j)])
                 else tokenize_loop self text (i + 1) (result @ [text ! i])))
         else tokenize_loop self text (i + 1) (result @ [text ! i]))
      else result)"
  by pat_completeness auto

termination
  by (relation "measure (\<lambda>(self, ws, i, res). length ws - i)")
    (auto dest!: walk_advances)

declare tokenize_loop.simps [simp del]

definition tokenize :: "mwe_tokenizer \<Rightarrow> token list \<Rightarrow> token list" where
  "tokenize self text = tokenize_loop self text 0 []"

definition tokenize_sents :: "mwe_tokenizer \<Rightarrow> token list list \<Rightarrow> token list list" where
  "tokenize_sents self strings = map (tokenize self) strings"

section \<open>The collocation finder of the toolkit\<close>

text \<open>
  Lines 125 to 130 score with NLTK's \<^verbatim>\<open>BigramCollocationFinder\<close>
  (\<^verbatim>\<open>nltk/collocations.py\<close>) and \<^verbatim>\<open>BigramAssocMeasures.likelihood_ratio\<close>
  (\<^verbatim>\<open>nltk/metrics/association.py\<close>). A \<^verbatim>\<open>FreqDist\<close> is a counter: a dictionary from
  samples to counts, in insertion order, where a missing sample counts 0.
  \<^verbatim>\<open>
  @classmethod
  def from_documents(cls, documents):
      return cls.from_words(
          cls._build_new_documents(documents, cls.default_ws, pad_right=True))

  @staticmethod
  def _build_new_documents(documents, window_size, pad_left=False,
                           pad_right=False, pad_symbol=None):
      padding = (pad_symbol,) * (window_size - 1)
      if pad_right:
          return _itertools.chain.from_iterable(
              _itertools.chain(doc, padding) for doc in documents)

  @classmethod
  def from_words(cls, words, window_size=2):
      wfd = FreqDist()
      bfd = FreqDist()
      for window in ngrams(words, window_size, pad_right=True):
          w1 = window[0]
          if w1 is None:
              continue
          wfd[w1] += 1
          for w2 in window[1:]:
              if w2 is not None:
                  bfd[(w1, w2)] += 1
      return cls(wfd, bfd, window_size=window_size)
  \<close>
  \<^verbatim>\<open>default_ws\<close> is 2, so a window is a pair and the padding one \<^verbatim>\<open>None\<close>.
\<close>

type_synonym 'a freqdist = "('a \<times> nat) list"

definition fd_get :: "'a freqdist \<Rightarrow> 'a \<Rightarrow> nat" where
  "fd_get fd k = (case map_of fd k of None \<Rightarrow> 0 | Some c \<Rightarrow> c)"

definition fd_inc :: "'a \<Rightarrow> 'a freqdist \<Rightarrow> 'a freqdist" where
  "fd_inc k fd = AList.update k (fd_get fd k + 1) fd"

definition fd_N :: "'a freqdist \<Rightarrow> nat" where
  "fd_N fd = sum_list (map snd fd)"

type_synonym bigram = "token \<times> token"

record finder =
  word_fd :: "token freqdist"
  ngram_fd :: "bigram freqdist"

definition build_new_documents :: "sentence list \<Rightarrow> token option list" where
  "build_new_documents documents = concat (map (\<lambda>doc. map Some doc @ [None]) documents)"

definition ngrams_pad_right :: "token option list \<Rightarrow> (token option \<times> token option) list" where
  "ngrams_pad_right sequence = (let padded = sequence @ [None] in zip padded (tl padded))"

fun count_window :: "finder \<Rightarrow> token option \<times> token option \<Rightarrow> finder" where
  "count_window f (None, w2) = f"
| "count_window f (Some w1, None) = f\<lparr>word_fd := fd_inc w1 (word_fd f)\<rparr>"
| "count_window f (Some w1, Some w2) =
     f\<lparr>word_fd := fd_inc w1 (word_fd f), ngram_fd := fd_inc (w1, w2) (ngram_fd f)\<rparr>"

definition from_words :: "token option list \<Rightarrow> finder" where
  "from_words words = foldl count_window \<lparr>word_fd = [], ngram_fd = []\<rparr> (ngrams_pad_right words)"

definition from_documents :: "sentence list \<Rightarrow> finder" where
  "from_documents documents = from_words (build_new_documents documents)"

text \<open>
  The association measure. Python floats are modelled by real numbers: a float division
  by zero raises \<^verbatim>\<open>ZeroDivisionError\<close>, and \<^verbatim>\<open>math.log\<close> raises \<^verbatim>\<open>ValueError\<close>
  at an argument that is not positive; rounding is not modelled.
  \<^verbatim>\<open>
  _ln = math.log
  _SMALL = 1e-20

  class BigramAssocMeasures(NgramAssocMeasures):
      @staticmethod
      def _contingency(n_ii, n_ix_xi_tuple, n_xx):
          (n_ix, n_xi) = n_ix_xi_tuple
          n_oi = n_xi - n_ii
          n_io = n_ix - n_ii
          return (n_ii, n_oi, n_io, n_xx - n_ii - n_oi - n_io)

      @staticmethod
      def _expected_values(cont):
          n_xx = sum(cont)
          # For each contingency table cell
          for i in range(4):
              yield (cont[i] + cont[i ^ 1]) * (cont[i] + cont[i ^ 2]) / n_xx

  # NgramAssocMeasures
  @classmethod
  def likelihood_ratio(cls, *marginals):
      cont = cls._contingency(*marginals)
      return 2 * sum(obs * _ln(obs / (exp + _SMALL) + _SMALL)
                     for obs, exp in zip(cont, cls._expected_values(cont)))
  \<close>
\<close>

definition py_div :: "real \<Rightarrow> real \<Rightarrow> error + real" where
  "py_div a b = (if b = 0 then Inl ZeroDivisionError else Inr (a / b))"

definition math_log :: "real \<Rightarrow> error + real" where
  "math_log x = (if 0 < x then Inr (ln x) else Inl ValueError)"

definition SMALL :: real where
  "SMALL = 1 / 10 ^ 20"

definition contingency :: "real \<Rightarrow> real \<times> real \<Rightarrow> real \<Rightarrow> real list" where
  "contingency n_ii n_ix_xi_tuple n_xx =
     (case n_ix_xi_tuple of (n_ix, n_xi) \<Rightarrow>
        (let n_oi = n_xi - n_ii; n_io = n_ix - n_ii
         in [n_ii, n_oi, n_io, n_xx - n_ii - n_oi - n_io]))"

unbundle bit_operations_syntax

definition expected_value :: "real list \<Rightarrow> nat \<Rightarrow> error + real" where
  "expected_value cont i =
     (let n_xx = sum_list cont
      in py_div ((cont ! i + cont ! (i XOR 1)) * (cont ! i + cont ! (i XOR 2))) n_xx)"

definition lr_term :: "real list \<Rightarrow> nat \<Rightarrow> error + real" where
  "lr_term cont i =
     (case expected_value cont i of
        Inl e \<Rightarrow> Inl e
      | Inr expected \<Rightarrow>
          (let obs = cont ! i in
           case py_div obs (expected + SMALL) of
             Inl e \<Rightarrow> Inl e
           | Inr q \<Rightarrow>
               (case math_log (q + SMALL) of
                  Inl e \<Rightarrow> Inl e
                | Inr l \<Rightarrow> Inr (obs * l))))"

fun py_sum :: "real \<Rightarrow> (error + real) list \<Rightarrow> error + real" where
  "py_sum acc [] = Inr acc"
| "py_sum acc (x # xs) = (case x of Inl e \<Rightarrow> Inl e | Inr v \<Rightarrow> py_sum (acc + v) xs)"

definition likelihood_ratio :: "real \<Rightarrow> real \<times> real \<Rightarrow> real \<Rightarrow> error + real" where
  "likelihood_ratio n_ii n_ix_xi_tuple n_xx =
     (let cont = contingency n_ii n_ix_xi_tuple n_xx in
      case py_sum 0 (map (lr_term cont) [0, 1, 2, 3]) of
        Inl e \<Rightarrow> Inl e
      | Inr s \<Rightarrow> Inr (2 * s))"

text \<open>
  \<^verbatim>\<open>
  def score_ngram(self, score_fn, w1, w2):
      n_all = self.N
      n_ii = self.ngram_fd[(w1, w2)] / (self.window_size - 1.0)
      if not n_ii:
          return
      n_ix = self.word_fd[w1]
      n_xi = self.word_fd[w2]
      return score_fn(n_ii, (n_ix, n_xi), n_all)

  def _score_ngrams(self, score_fn):
      for tup in self.ngram_fd:
          score = self.score_ngram(score_fn, *tup)
          if score is not None:
              yield tup, score

  def score_ngrams(self, score_fn):
      return sorted(self._score_ngrams(score_fn), key=lambda t: (-t[1], t[0]))

  def above_score(self, score_fn, min_score):
      """Returns a sequence of ngrams, ordered by decreasing score, whose
      scores each exceed the given minimum score."""
      for ngram, score in self.score_ngrams(score_fn):
          if score > min_score:
              yield ngram
          else:
              break
  \<close>
  \<^verbatim>\<open>self.N\<close> is \<^verbatim>\<open>word_fd.N()\<close>, the number of counted words.
  The threshold is whatever number the caller configured; \<open>pyfloat\<close> gives it the
  values a Python float has, and \<open>exceeds s m\<close> is the comparison \<^verbatim>\<open>score > min_score\<close>,
  which is false at a NaN.
\<close>

type_synonym score_fn = "real \<Rightarrow> real \<times> real \<Rightarrow> real \<Rightarrow> error + real"

datatype pyfloat = Finite real | PosInf | NegInf | NaN

fun exceeds :: "real \<Rightarrow> pyfloat \<Rightarrow> bool" where
  "exceeds s (Finite m) = (m < s)"
| "exceeds s PosInf = False"
| "exceeds s NegInf = True"
| "exceeds s NaN = False"

definition score_ngram :: "finder \<Rightarrow> score_fn \<Rightarrow> token \<Rightarrow> token \<Rightarrow> error + real option" where
  "score_ngram self score_fn w1 w2 =
     (let n_all = real (fd_N (word_fd self));
          n_ii = real (fd_get (ngram_fd self) (w1, w2)) / (2 - 1)
      in if n_ii = 0 then Inr None
         else (let n_ix = real (fd_get (word_fd self) w1);
                   n_xi = real (fd_get (word_fd self) w2)
               in case score_fn n_ii (n_ix, n_xi) n_all of
                    Inl e \<Rightarrow> Inl e
                  | Inr score \<Rightarrow> Inr (Some score)))"

fun score_each :: "finder \<Rightarrow> score_fn \<Rightarrow> bigram list \<Rightarrow> error + (bigram \<times> real) list" where
  "score_each self score_fn [] = Inr []"
| "score_each self score_fn (tup # tups) =
     (case score_ngram self score_fn (fst tup) (snd tup) of
        Inl e \<Rightarrow> Inl e
      | Inr None \<Rightarrow> score_each self score_fn tups
      | Inr (Some score) \<Rightarrow>
          (case score_each self score_fn tups of
             Inl e \<Rightarrow> Inl e
           | Inr rest \<Rightarrow> Inr ((tup, score) # rest)))"

definition score_ngrams :: "finder \<Rightarrow> score_fn \<Rightarrow> error + (bigram \<times> real) list" where
  "score_ngrams self score_fn =
     (case score_each self score_fn (map fst (ngram_fd self)) of
        Inl e \<Rightarrow> Inl e
      | Inr scored \<Rightarrow> Inr (sort_key (\<lambda>t. (- snd t, fst t)) scored))"

definition take_above :: "(bigram \<times> real) list \<Rightarrow> pyfloat \<Rightarrow> bigram list" where
  "take_above scored min_score =
     map fst (takeWhile (\<lambda>t. exceeds (snd t) min_score) scored)"

definition above_score :: "finder \<Rightarrow> score_fn \<Rightarrow> pyfloat \<Rightarrow> error + bigram list" where
  "above_score self score_fn min_score =
     (case score_ngrams self score_fn of
        Inl e \<Rightarrow> Inl e
      | Inr scored \<Rightarrow> Inr (take_above scored min_score))"

section \<open>The tokenizers of \<^verbatim>\<open>textmap/tokenizers.py\<close>\<close>

text \<open>
  The sentence splitter, the word splitters and the document preprocessor are capabilities
  of the external toolkits (NLTK's \<^verbatim>\<open>sent_tokenize\<close> and \<^verbatim>\<open>word_tokenize\<close>, Python's
  \<^verbatim>\<open>str.lower\<close>, scikit-learn's \<^verbatim>\<open>CountVectorizer().build_tokenizer()\<close> and
  \<^verbatim>\<open>build_preprocessor()\<close>). The code is polymorphic in them, and so is the model: they
  are the fields of a record that every operation takes.
\<close>

record toolkit =
  sent_tokenize :: "string \<Rightarrow> string list"
  word_tokenize :: "string \<Rightarrow> token list"
  lower :: "string \<Rightarrow> string"
  cv_word_tokenize :: "string \<Rightarrow> token list"
  cv_preprocesser :: "string \<Rightarrow> string"

text \<open>
  Modelled from the spec: \<^verbatim>\<open>flatten\<close> is imported from \<^verbatim>\<open>textmap/utilities.py\<close>, which
  is not among the source files. Section 6 of the specification describes the accessor
  built on it, \<^verbatim>\<open>tokens_by_sent\<close>, as "documents flattened, sentence grouping
  preserved": the lists of a list are concatenated, one level deep.
\<close>

definition flatten :: "'a list list \<Rightarrow> 'a list" where
  "flatten list_of_seq = concat list_of_seq"

subsection \<open>BaseTokenizer and StanzaTokenizer\<close>

text \<open>
  The attribute \<^verbatim>\<open>tokens_by_sent_by_doc_\<close> is the field \<open>tokens_by_sent_by_doc_attr\<close>
  (a name cannot end with an underscore here).
\<close>

record BaseTokenizer =
  tokens_by_sent_by_doc_attr :: "corpus option"

definition BaseTokenizer_fit ::
  "'a BaseTokenizer_scheme \<Rightarrow> string list \<Rightarrow> 'a BaseTokenizer_scheme" where
  "BaseTokenizer_fit self X = self\<lparr>tokens_by_sent_by_doc_attr := None\<rparr>"

definition BaseTokenizer_fit_transform ::
  "'a BaseTokenizer_scheme \<Rightarrow> string list \<Rightarrow> corpus option" where
  "BaseTokenizer_fit_transform self X = tokens_by_sent_by_doc_attr (BaseTokenizer_fit self X)"

text \<open>
  \<^verbatim>\<open>class StanzaTokenizer(BaseTokenizer): pass\<close> (lines 184 and 185): the class adds
  nothing, so its \<^verbatim>\<open>fit\<close> and \<^verbatim>\<open>fit_transform\<close> are the inherited ones.
\<close>

type_synonym StanzaTokenizer = BaseTokenizer

definition StanzaTokenizer_fit_transform :: "StanzaTokenizer \<Rightarrow> string list \<Rightarrow> corpus option" where
  "StanzaTokenizer_fit_transform self X = BaseTokenizer_fit_transform self X"

subsection \<open>NLTKTokenizer\<close>

record NLTKTokenizer = BaseTokenizer +
  lower_case :: bool
  max_MWE_iterations :: int
  min_MWE_PMI :: pyfloat

text \<open>Lines 115 to 122: the initial structure.\<close>

definition initial_tokens :: "toolkit \<Rightarrow> bool \<Rightarrow> string list \<Rightarrow> corpus" where
  "initial_tokens tk lc X =
     (if lc then
        map (\<lambda>doc. map (\<lambda>sent. word_tokenize tk (lower tk sent)) (sent_tokenize tk doc)) X
      else
        map (\<lambda>doc. map (\<lambda>sent. word_tokenize tk sent) (sent_tokenize tk doc)) X)"

text \<open>
  Lines 125 to 130: the bigrams to contract in the current structure. The finder sees
  \<^verbatim>\<open>self.tokens_by_sent()\<close>, the flattened structure.
\<close>

definition select_mwes :: "pyfloat \<Rightarrow> corpus \<Rightarrow> error + bigram list" where
  "select_mwes min_score c =
     above_score (from_documents (flatten c)) likelihood_ratio min_score"

text \<open>
  Lines 133 to 136: one contraction of the whole structure. A bigram is a Python tuple
  \<^verbatim>\<open>(w1, w2)\<close>, which the trie reads as the sequence of its two items.
\<close>

definition tuple_items :: "bigram \<Rightarrow> token list" where
  "tuple_items tup = [fst tup, snd tup]"

definition contract :: "bigram list \<Rightarrow> corpus \<Rightarrow> corpus" where
  "contract ms c =
     (let contracter = MWETokenizer (map tuple_items ms)
      in map (\<lambda>doc. tokenize_sents contracter doc) c)"

text \<open>
  Lines 124 to 136: \<^verbatim>\<open>for i in range(self.max_MWE_iterations)\<close> with its \<^verbatim>\<open>break\<close>. The
  first argument is the number of iterations left; \<^verbatim>\<open>range\<close> of a number below 1 is
  empty, so \<open>fit\<close> starts the loop with \<open>nat (max_MWE_iterations self)\<close>.
\<close>

fun MWE_iterations :: "nat \<Rightarrow> pyfloat \<Rightarrow> corpus \<Rightarrow> error + corpus" where
  "MWE_iterations 0 min_score c = Inr c"
| "MWE_iterations (Suc n) min_score c =
     (case select_mwes min_score c of
        Inl e \<Rightarrow> Inl e
      | Inr ms \<Rightarrow>
          if length ms = 0 then Inr c
          else MWE_iterations n min_score (contract ms c))"

definition NLTKTokenizer_fit ::
  "toolkit \<Rightarrow> NLTKTokenizer \<Rightarrow> string list \<Rightarrow> error + NLTKTokenizer" where
  "NLTKTokenizer_fit tk self X =
     (case MWE_iterations (nat (max_MWE_iterations self)) (min_MWE_PMI self)
             (initial_tokens tk (lower_case self) X) of
        Inl e \<Rightarrow> Inl e
      | Inr c \<Rightarrow> Inr (self\<lparr>tokens_by_sent_by_doc_attr := Some c\<rparr>))"


subsection \<open>CountVectorizerTokenizer\<close>

text \<open>
  Lines 140 to 181: the same loop (the source repeats it word for word) after
  scikit-learn's preprocessing and word splitting.
\<close>

record CountVectorizerTokenizer = BaseTokenizer +
  cv_max_MWE_iterations :: int
  cv_min_MWE_PMI :: pyfloat

definition CountVectorizerTokenizer_fit ::
  "toolkit \<Rightarrow> CountVectorizerTokenizer \<Rightarrow> string list \<Rightarrow> error + CountVectorizerTokenizer" where
  "CountVectorizerTokenizer_fit tk self X =
     (case MWE_iterations (nat (cv_max_MWE_iterations self)) (cv_min_MWE_PMI self)
             (map (\<lambda>doc. map (\<lambda>sent. cv_word_tokenize tk sent)
                           (sent_tokenize tk (cv_preprocesser tk doc))) X) of
        Inl e \<Rightarrow> Inl e
      | Inr c \<Rightarrow> Inr (self\<lparr>tokens_by_sent_by_doc_attr := Some c\<rparr>))"

section \<open>Definitions for the statements and their examples\<close>

subsection \<open>The contraction pass in the words of the specification\<close>

text \<open>
  Section 4.4 of the specification: "scan tokens left to right; whenever the current token
  and the next token form a pair present in the ContractionSet, replace both with a single
  new token whose identity is the two original tokens joined by a fixed separator, and
  advance the scan past the merged pair". \<open>merge_pairs\<close> is that scan, written from these
  words; \<open>contract\<close> above is the code.
\<close>

fun merge_pairs :: "bigram set \<Rightarrow> token list \<Rightarrow> token list" where
  "merge_pairs S (x # y # r) =
     (if (x, y) \<in> S then (x @ ''_'' @ y) # merge_pairs S r else x # merge_pairs S (y # r))"
| "merge_pairs S r = r"

subsection \<open>Lower-casing in the words of the specification\<close>


subsection \<open>Invariants\<close>

text \<open>
  A trie built from bigrams has two levels below its root: the first items, below each the
  second items that follow it in some bigram, and these are leaves without children.
\<close>

definition bigram_trie :: "bigram set \<Rightarrow> trie \<Rightarrow> bool" where
  "bigram_trie S t =
     (\<not> leaf t \<and>
      (\<forall>a. trie_get t a = None \<longrightarrow> (\<forall>b. (a, b) \<notin> S)) \<and>
      (\<forall>a ta. trie_get t a = Some ta \<longrightarrow>
         \<not> leaf ta \<and>
         (\<forall>b. trie_get ta b = None \<longrightarrow> (a, b) \<notin> S) \<and>
         (\<forall>b tb. trie_get ta b = Some tb \<longrightarrow> (a, b) \<in> S \<and> leaf tb \<and> kids tb = [])))"

text \<open>
  \<open>shrinks c' c\<close>: the structures have the same number of documents, each document the
  same number of sentences, and no sentence of \<open>c'\<close> has more tokens than the sentence of
  \<open>c\<close> at its place.
\<close>

definition shrinks :: "corpus \<Rightarrow> corpus \<Rightarrow> bool" where
  "shrinks c' c = list_all2 (list_all2 (\<lambda>s' s. length s' \<le> length s)) c' c"

subsection \<open>A small toolkit for examples\<close>

text \<open>
  The theorems below hold for every toolkit. Their examples run on this one: sentences end
  at a full stop that is followed by a space and an upper-case letter, words are separated
  by spaces, and \<open>ascii_lower\<close> is \<^verbatim>\<open>str.lower\<close> on ASCII text.
\<close>

definition is_upper :: "char \<Rightarrow> bool" where
  "is_upper ch = (65 \<le> (of_char ch :: nat) \<and> (of_char ch :: nat) \<le> 90)"

definition ascii_lower :: "string \<Rightarrow> string" where
  "ascii_lower s = map (\<lambda>ch. if is_upper ch then char_of ((of_char ch :: nat) + 32) else ch) s"

fun stop_sents :: "string \<Rightarrow> string \<Rightarrow> string list" where
  "stop_sents cur (c # d # e # r) =
     (if c = CHR ''.'' \<and> d = CHR '' '' \<and> is_upper e then (cur @ [c]) # stop_sents [] (e # r)
      else stop_sents (cur @ [c]) (d # e # r))"
| "stop_sents cur r = (if cur @ r = [] then [] else [cur @ r])"

fun space_words :: "string \<Rightarrow> string \<Rightarrow> string list" where
  "space_words cur [] = (if cur = [] then [] else [cur])"
| "space_words cur (c # r) =
     (if c = CHR '' '' then (if cur = [] then space_words [] r else cur # space_words [] r)
      else space_words (cur @ [c]) r)"

definition example_toolkit :: toolkit where
  "example_toolkit =
     \<lparr>sent_tokenize = stop_sents [], word_tokenize = space_words [], lower = ascii_lower,
      cv_word_tokenize = (\<lambda>s. space_words [] (ascii_lower s)), cv_preprocesser = ascii_lower\<rparr>"

subsection \<open>Inputs of the examples\<close>

text \<open>
  The configuration and the inputs of the examples: an \<^verbatim>\<open>NLTKTokenizer\<close> that was not
  fitted yet, and the three documents of section 8 of the specification.
\<close>

definition config :: "bool \<Rightarrow> int \<Rightarrow> pyfloat \<Rightarrow> NLTKTokenizer" where
  "config lc n m =
     \<lparr>tokens_by_sent_by_doc_attr = None, lower_case = lc, max_MWE_iterations = n,
      min_MWE_PMI = m\<rparr>"

definition three_documents :: "string list" where
  "three_documents =
     [''foo bar pok wer pok pok foo bar wer qwe pok asd fgh'', '''',
      ''fgh asd foo pok qwe pok wer pok foo bar pok pok wer'']"

text \<open>The score of the bigram of the one-sentence corpus \<^verbatim>\<open>foo bar\<close>.\<close>

definition foo_bar_score :: real where
  "foo_bar_score = (case likelihood_ratio 1 (1, 1) 2 of Inl e \<Rightarrow> 0 | Inr s \<Rightarrow> s)"

section \<open>The tokenizer on a trie of bigrams\<close>

lemma bigram_trie_empty: "bigram_trie {} (Trie False [])"
  by (simp add: bigram_trie_def trie_get_def)

lemma trie_get_insert:
  "trie_get (trie_insert (w # ws) t) x =
     (if x = w then Some (trie_insert ws (case trie_get t w of None \<Rightarrow> Trie False [] | Some c \<Rightarrow> c))
      else trie_get t x)"
  by (simp add: trie_get_def update_conv')

lemma leaf_insert: "leaf (trie_insert (w # ws) t) = leaf t"
  by simp

lemma bigram_trieD:
  assumes "bigram_trie S t"
  shows "\<not> leaf t"
    and "\<And>x y. trie_get t x = None \<Longrightarrow> (x, y) \<notin> S"
    and "\<And>x tx. trie_get t x = Some tx \<Longrightarrow> \<not> leaf tx"
    and "\<And>x tx y. trie_get t x = Some tx \<Longrightarrow> trie_get tx y = None \<Longrightarrow> (x, y) \<notin> S"
    and "\<And>x tx y ty. trie_get t x = Some tx \<Longrightarrow> trie_get tx y = Some ty \<Longrightarrow>
           (x, y) \<in> S \<and> leaf ty \<and> kids ty = []"
  using assms unfolding bigram_trie_def by blast+

lemma bigram_trie_insert:
  assumes inv: "bigram_trie S t"
  shows "bigram_trie (insert (a, b) S) (trie_insert [a, b] t)"
proof -
  note d = bigram_trieD [OF inv]
  define ta0 where "ta0 = (case trie_get t a of None \<Rightarrow> Trie False [] | Some c \<Rightarrow> c)"
  define tb0 where "tb0 = (case trie_get ta0 b of None \<Rightarrow> Trie False [] | Some c \<Rightarrow> c)"
  define ta where "ta = trie_insert [b] ta0"
  define T where "T = trie_insert [a, b] t"
  have get_t: "\<And>x. trie_get T x = (if x = a then Some ta else trie_get t x)"
    by (simp only: T_def trie_get_insert ta_def ta0_def)
  have get_ta: "\<And>y. trie_get ta y = (if y = b then Some (Trie True (kids tb0)) else trie_get ta0 y)"
    by (simp add: ta_def tb0_def trie_get_def update_conv')
  have ta0_leaf: "\<not> leaf ta0"
  proof (cases "trie_get t a")
    case None then show ?thesis by (simp add: ta0_def)
  next
    case (Some c) with d(3) [OF Some] show ?thesis by (simp add: ta0_def)
  qed
  have ta0_none: "(a, y) \<notin> S" if "trie_get ta0 y = None" for y
  proof (cases "trie_get t a")
    case None from d(2) [OF None] show ?thesis .
  next
    case (Some c)
    with that have "trie_get c y = None" by (simp add: ta0_def)
    from d(4) [OF Some this] show ?thesis .
  qed
  have ta0_some: "(a, y) \<in> S \<and> leaf tb \<and> kids tb = []" if "trie_get ta0 y = Some tb" for y tb
  proof (cases "trie_get t a")
    case None with that show ?thesis by (simp add: ta0_def trie_get_def)
  next
    case (Some c)
    with that have "trie_get c y = Some tb" by (simp add: ta0_def)
    from d(5) [OF Some this] show ?thesis .
  qed
  have tb0: "kids tb0 = []"
  proof (cases "trie_get ta0 b")
    case None then show ?thesis by (simp add: tb0_def)
  next
    case (Some c) with ta0_some [OF Some] show ?thesis by (simp add: tb0_def)
  qed
  have leaf_ta: "\<not> leaf ta"
    using ta0_leaf by (simp add: ta_def)
  have leaf_t: "\<not> leaf T"
    using d(1) by (simp add: T_def)
  have "bigram_trie (insert (a, b) S) T"
    unfolding bigram_trie_def
  proof (intro conjI allI impI)
    show "\<not> leaf T" by (rule leaf_t)
  next
    fix x y assume "trie_get T x = None"
    then have "x \<noteq> a" "trie_get t x = None" by (simp_all add: get_t split: if_splits)
    with d(2) [of x y] show "(x, y) \<notin> insert (a, b) S" by simp
  next
    fix x tx assume g: "trie_get T x = Some tx"
    show "\<not> leaf tx"
    proof (cases "x = a")
      case True with g leaf_ta show ?thesis by (simp add: get_t)
    next
      case False
      with g have "trie_get t x = Some tx" by (simp add: get_t)
      from d(3) [OF this] show ?thesis .
    qed
  next
    fix x tx y assume g: "trie_get T x = Some tx"
      and n: "trie_get tx y = None"
    show "(x, y) \<notin> insert (a, b) S"
    proof (cases "x = a")
      case True
      with g have "tx = ta" by (simp add: get_t)
      with n have "y \<noteq> b" "trie_get ta0 y = None" by (simp_all add: get_ta split: if_splits)
      with ta0_none [of y] True show ?thesis by simp
    next
      case False
      with g have "trie_get t x = Some tx" by (simp add: get_t)
      from d(4) [OF this n] False show ?thesis by simp
    qed
  next
    fix x tx y ty assume g: "trie_get T x = Some tx"
      and s: "trie_get tx y = Some ty"
    have "(x, y) \<in> insert (a, b) S \<and> leaf ty \<and> kids ty = []"
    proof (cases "x = a")
      case True
      with g have tx: "tx = ta" by (simp add: get_t)
      show ?thesis
      proof (cases "y = b")
        case True
        with s tx have "ty = Trie True (kids tb0)" by (simp add: get_ta)
        with tb0 True \<open>x = a\<close> show ?thesis by simp
      next
        case False
        with s tx have "trie_get ta0 y = Some ty" by (simp add: get_ta)
        from ta0_some [OF this] \<open>x = a\<close> show ?thesis by simp
      qed
    next
      case False
      with g have "trie_get t x = Some tx" by (simp add: get_t)
      from d(5) [OF this s] show ?thesis by simp
    qed
    then show "(x, y) \<in> insert (a, b) S" "leaf ty" "kids ty = []" by simp_all
  qed
  then show ?thesis by (simp only: T_def)
qed

lemma bigram_trie_foldl:
  "bigram_trie S t \<Longrightarrow>
   bigram_trie (S \<union> set ms) (foldl (\<lambda>t s. trie_insert s t) t (map tuple_items ms))"
proof (induction ms arbitrary: S t)
  case Nil
  then show ?case by simp
next
  case (Cons m ms)
  obtain a b where m: "m = (a, b)" by (cases m)
  from bigram_trie_insert [OF Cons.prems, of a b]
  have "bigram_trie (insert m S) (trie_insert (tuple_items m) t)"
    by (simp add: m tuple_items_def)
  from Cons.IH [OF this] show ?case by simp
qed

lemma bigram_trie_MWETokenizer:
  "bigram_trie (set ms) (mwes (MWETokenizer (map tuple_items ms)))"
  using bigram_trie_foldl [OF bigram_trie_empty, of ms]
  by (simp add: MWETokenizer_def Trie_init_def)

lemma walk_stop:
  assumes "kids t = []"
  shows "walk ws j t l = (j, t, l)"
  using assms by (simp add: walk.simps [of ws j] trie_get_def)

lemma walk_bigram:
  assumes inv: "bigram_trie S T" and i: "i < length ws"
    and ta: "trie_get T (ws ! i) = Some ta"
  shows "walk ws i T (- 1) =
    (if Suc i < length ws \<and> (ws ! i, ws ! Suc i) \<in> S
     then (i + 2, the (trie_get ta (ws ! Suc i)), int (i + 2))
     else (Suc i, ta, - 1))"
proof -
  note d = bigram_trieD [OF inv]
  from d(3) [OF ta] have nl: "\<not> leaf ta" .
  from i ta nl have step1: "walk ws i T (- 1) = walk ws (Suc i) ta (- 1)"
    by (simp add: walk.simps [of ws i])
  show ?thesis
  proof (cases "Suc i < length ws")
    case False
    then have "walk ws (Suc i) ta (- 1) = (Suc i, ta, - 1)"
      by (simp add: walk.simps [of ws "Suc i"])
    with step1 False show ?thesis by simp
  next
    case True
    show ?thesis
    proof (cases "trie_get ta (ws ! Suc i)")
      case None
      from d(4) [OF ta None] have "(ws ! i, ws ! Suc i) \<notin> S" .
      moreover from True None have "walk ws (Suc i) ta (- 1) = (Suc i, ta, - 1)"
        by (simp add: walk.simps [of ws "Suc i"])
      ultimately show ?thesis using step1 by simp
    next
      case (Some tb)
      from d(5) [OF ta Some]
      have m: "(ws ! i, ws ! Suc i) \<in> S" and lf: "leaf tb" and k: "kids tb = []"
        by simp_all
      from True Some lf
      have "walk ws (Suc i) ta (- 1) = walk ws (Suc i + 1) tb (int (Suc i + 1))"
        by (simp add: walk.simps [of ws "Suc i"])
      also have "\<dots> = (Suc i + 1, tb, int (Suc i + 1))"
        by (rule walk_stop [OF k])
      finally show ?thesis using step1 True m Some by simp
    qed
  qed
qed

lemma slice_two:
  assumes "Suc i < length ws"
  shows "slice ws i (i + 2) = [ws ! i, ws ! Suc i]"
proof -
  from assms have "drop i ws = ws ! i # ws ! Suc i # drop (Suc (Suc i)) ws"
    by (simp add: Cons_nth_drop_Suc Suc_lessD)
  then show ?thesis by (simp add: slice_def)
qed

lemma tokenize_loop_merge:
  assumes inv: "bigram_trie S (mwes self)" and sep: "separator self = ''_''"
  shows "tokenize_loop self ws i res = res @ merge_pairs S (drop i ws)"
proof (induction "length ws - i" arbitrary: i res rule: less_induct)
  case less
  note d = bigram_trieD [OF inv]
  show ?case
  proof (cases "i < length ws")
    case False
    then show ?thesis by (simp add: tokenize_loop.simps [of self ws i])
  next
    case True
    then have dr: "drop i ws = ws ! i # drop (Suc i) ws"
      by (simp add: Cons_nth_drop_Suc)
    have next1: "tokenize_loop self ws (Suc i) (res @ [ws ! i]) =
        (res @ [ws ! i]) @ merge_pairs S (drop (Suc i) ws)"
      using True by (intro less) arith
    show ?thesis
    proof (cases "Suc i < length ws \<and> (ws ! i, ws ! Suc i) \<in> S")
      case False
      have unmerged: "merge_pairs S (drop i ws) = ws ! i # merge_pairs S (drop (Suc i) ws)"
      proof (cases "Suc i < length ws")
        case True
        then have "drop (Suc i) ws = ws ! Suc i # drop (Suc (Suc i)) ws"
          by (simp add: Cons_nth_drop_Suc)
        with dr False True show ?thesis by simp
      next
        case False
        with dr show ?thesis by simp
      qed
      have "tokenize_loop self ws i res = tokenize_loop self ws (Suc i) (res @ [ws ! i])"
      proof (cases "trie_get (mwes self) (ws ! i)")
        case None
        with True show ?thesis by (simp add: tokenize_loop.simps [of self ws i])
      next
        case (Some ta)
        from walk_bigram [OF inv True Some] False
        have w: "walk ws i (mwes self) (- 1) = (Suc i, ta, - 1)" by simp
        from d(3) [OF Some] have "\<not> leaf ta" .
        with True Some w show ?thesis by (simp add: tokenize_loop.simps [of self ws i])
      qed
      with next1 unmerged show ?thesis by simp
    next
      case m: True
      then have dr2: "drop i ws = ws ! i # ws ! Suc i # drop (i + 2) ws"
        by (simp add: Cons_nth_drop_Suc Suc_lessD)
      from m d(2) [of "ws ! i" "ws ! Suc i"]
      obtain ta where ta: "trie_get (mwes self) (ws ! i) = Some ta"
        by (cases "trie_get (mwes self) (ws ! i)") auto
      from walk_bigram [OF inv True ta] m
      have w: "walk ws i (mwes self) (- 1) =
          (i + 2, the (trie_get ta (ws ! Suc i)), int (i + 2))" by simp
      from m have "Suc i < length ws" by simp
      then have sl: "slice ws i (i + 2) = [ws ! i, ws ! Suc i]"
        by (rule slice_two)
      have "tokenize_loop self ws i res =
          tokenize_loop self ws (i + 2) (res @ [join (separator self) (slice ws i (i + 2))])"
      proof -
        have n: "nat (2 + int i) = Suc (Suc i)" by arith
        from True ta w show ?thesis
          by (simp add: tokenize_loop.simps [of self ws i] Let_def n)
      qed
      also have "\<dots> = (res @ [join (separator self) (slice ws i (i + 2))])
          @ merge_pairs S (drop (i + 2) ws)"
        using m by (intro less) arith
      finally show ?thesis using m dr2 sl sep by simp
    qed
  qed
qed

lemma tokenize_merge_pairs:
  "tokenize (MWETokenizer (map tuple_items ms)) ws = merge_pairs (set ms) ws"
  using tokenize_loop_merge [OF bigram_trie_MWETokenizer, of ms ws 0 "[]"]
  by (simp add: tokenize_def MWETokenizer_def)

section \<open>The contraction loop\<close>

lemma contract_merge: "contract ms c = map (map (merge_pairs (set ms))) c"
  by (simp add: contract_def tokenize_sents_def tokenize_merge_pairs)

lemma length_merge_pairs: "length (merge_pairs S ws) \<le> length ws"
  by (induction S ws rule: merge_pairs.induct) auto



lemma shrinks_refl: "shrinks c c"
  by (simp add: shrinks_def list_all2_refl)

lemma shrinks_trans: "shrinks c'' c' \<Longrightarrow> shrinks c' c \<Longrightarrow> shrinks c'' c"
  unfolding shrinks_def
  by (erule list_all2_trans [rotated], assumption)
     (erule list_all2_trans [rotated], assumption, simp)

lemma contract_shrinks: "shrinks (contract ms c) c"
  by (simp add: shrinks_def contract_merge list_all2_map1 list_all2_refl length_merge_pairs)

lemma MWE_iterations_shrinks:
  "MWE_iterations n m c = Inr c' \<Longrightarrow> shrinks c' c"
proof (induction n arbitrary: c)
  case 0
  then show ?case by (simp add: shrinks_refl)
next
  case (Suc n)
  show ?case
  proof (cases "select_mwes m c")
    case (Inl e)
    with Suc.prems show ?thesis by simp
  next
    case (Inr ms)
    show ?thesis
    proof (cases "ms = []")
      case True
      with Inr Suc.prems show ?thesis by (simp add: shrinks_refl)
    next
      case False
      with Inr Suc.prems have "MWE_iterations n m (contract ms c) = Inr c'" by simp
      from Suc.IH [OF this] contract_shrinks show ?thesis by (rule shrinks_trans)
    qed
  qed
qed

lemma shrinksD:
  assumes "shrinks c' c"
  shows "length c' = length c"
    and "d < length c \<Longrightarrow> length (c' ! d) = length (c ! d)"
    and "d < length c \<Longrightarrow> s < length (c ! d) \<Longrightarrow> length (c' ! d ! s) \<le> length (c ! d ! s)"
proof -
  from assms show l: "length c' = length c"
    by (simp add: shrinks_def list_all2_lengthD)
  {
    assume d: "d < length c"
    with assms l have a: "list_all2 (\<lambda>s' s. length s' \<le> length s) (c' ! d) (c ! d)"
      by (simp add: shrinks_def list_all2_conv_all_nth)
    then show l2: "length (c' ! d) = length (c ! d)" by (rule list_all2_lengthD)
    assume "s < length (c ! d)"
    with a l2 show "length (c' ! d ! s) \<le> length (c ! d ! s)"
      by (simp add: list_all2_conv_all_nth)
  }
qed

text \<open>
  One more allowed iteration is one more turn of the loop body on the result: once the
  selection is empty it stays empty, since the structure no longer changes.
\<close>

lemma MWE_iterations_Suc:
  "MWE_iterations (Suc n) m c =
     (case MWE_iterations n m c of Inl e \<Rightarrow> Inl e | Inr c' \<Rightarrow> MWE_iterations (Suc 0) m c')"
proof (induction n arbitrary: c)
  case 0
  show ?case by simp
next
  case (Suc n)
  show ?case
  proof (cases "select_mwes m c")
    case (Inl e)
    then show ?thesis by simp
  next
    case (Inr ms)
    show ?thesis
    proof (cases "ms = []")
      case True
      with Inr show ?thesis by simp
    next
      case False
      with Inr
      have a: "MWE_iterations (Suc (Suc n)) m c = MWE_iterations (Suc n) m (contract ms c)"
        and b: "MWE_iterations (Suc n) m c = MWE_iterations n m (contract ms c)"
        by simp_all
      show ?thesis unfolding a b by (rule Suc.IH)
    qed
  qed
qed

lemma fit_result:
  assumes "NLTKTokenizer_fit tk self X = Inr self'"
  shows "\<exists>c. tokens_by_sent_by_doc_attr self' = Some c \<and>
    shrinks c (initial_tokens tk (lower_case self) X)"
proof (cases "MWE_iterations (nat (max_MWE_iterations self)) (min_MWE_PMI self)
    (initial_tokens tk (lower_case self) X)")
  case (Inl e)
  with assms show ?thesis by (simp add: NLTKTokenizer_fit_def)
next
  case (Inr c)
  from MWE_iterations_shrinks [OF Inr] Inr assms show ?thesis
    by (auto simp: NLTKTokenizer_fit_def)
qed

lemma length_initial_tokens: "length (initial_tokens tk lc X) = length X"
  by (simp add: initial_tokens_def)

lemma initial_tokens_empty_document:
  assumes "sent_tokenize tk '''' = []" and "i < length X" and "X ! i = ''''"
  shows "initial_tokens tk lc X ! i = []"
  using assms by (simp add: initial_tokens_def)

section \<open>The errors of the loop\<close>

lemma py_sum_error:
  assumes "py_sum acc xs = Inl e" and "\<And>x e'. x \<in> set xs \<Longrightarrow> x = Inl e' \<Longrightarrow> e' \<noteq> ConfigurationError"
  shows "e \<noteq> ConfigurationError"
  using assms
proof (induction xs arbitrary: acc)
  case Nil
  then show ?case by simp
next
  case (Cons x xs)
  show ?case
  proof (cases x)
    case (Inl e')
    with Cons.prems(1) have "e = e'" by simp
    with Cons.prems(2) [of x e'] Inl show ?thesis by simp
  next
    case (Inr v)
    with Cons.prems(1) have "py_sum (acc + v) xs = Inl e" by simp
    from Cons.IH [OF this] Cons.prems(2) show ?thesis by simp
  qed
qed

lemma lr_term_error: "lr_term cont i = Inl e \<Longrightarrow> e \<noteq> ConfigurationError"
  by (auto simp: lr_term_def expected_value_def py_div_def math_log_def Let_def
      split: sum.splits if_splits)

lemma likelihood_ratio_error:
  assumes "likelihood_ratio n_ii p n_xx = Inl e"
  shows "e \<noteq> ConfigurationError"
proof -
  define cont where "cont = contingency n_ii p n_xx"
  from assms have "py_sum 0 (map (lr_term cont) [0, 1, 2, 3]) = Inl e"
    by (simp add: likelihood_ratio_def cont_def Let_def split: sum.splits)
  then show ?thesis
  proof (rule py_sum_error)
    fix x e' assume "x \<in> set (map (lr_term cont) [0, 1, 2, 3])" and "x = Inl e'"
    then obtain i where "lr_term cont i = Inl e'" by auto
    then show "e' \<noteq> ConfigurationError" by (rule lr_term_error)
  qed
qed

lemma score_ngram_error:
  "score_ngram f likelihood_ratio w1 w2 = Inl e \<Longrightarrow> e \<noteq> ConfigurationError"
  by (auto simp: score_ngram_def Let_def split: if_splits sum.splits
      dest: likelihood_ratio_error)

lemma score_each_error:
  "score_each f likelihood_ratio tups = Inl e \<Longrightarrow> e \<noteq> ConfigurationError"
proof (induction tups)
  case Nil
  then show ?case by simp
next
  case (Cons tup tups)
  then show ?case
    by (auto split: sum.splits option.splits dest: score_ngram_error)
qed

lemma select_mwes_error: "select_mwes m c = Inl e \<Longrightarrow> e \<noteq> ConfigurationError"
  by (auto simp: select_mwes_def above_score_def score_ngrams_def split: sum.splits
      dest: score_each_error)

lemma MWE_iterations_error: "MWE_iterations n m c = Inl e \<Longrightarrow> e \<noteq> ConfigurationError"
proof (induction n arbitrary: c)
  case 0
  then show ?case by simp
next
  case (Suc n)
  show ?case
  proof (cases "select_mwes m c")
    case (Inl e')
    with Suc.prems have "e = e'" by simp
    with select_mwes_error [OF Inl] show ?thesis by simp
  next
    case (Inr ms)
    with Suc.prems have "MWE_iterations n m (contract ms c) = Inl e"
      by (simp split: if_splits)
    then show ?thesis by (rule Suc.IH)
  qed
qed

text \<open>No score exceeds a NaN or \<^verbatim>\<open>float("inf")\<close>: such a threshold selects nothing.\<close>

lemma take_above_nothing: "m = NaN \<or> m = PosInf \<Longrightarrow> take_above scored m = []"
  by (cases scored) (auto simp: take_above_def)

lemma MWE_iterations_nothing:
  assumes "m = NaN \<or> m = PosInf" and "MWE_iterations n m c = Inr c'"
  shows "c' = c"
proof (cases n)
  case 0
  with assms(2) show ?thesis by simp
next
  case (Suc k)
  from assms(1) have "select_mwes m c = Inr [] \<or> (\<exists>e. select_mwes m c = Inl e)"
    by (auto simp: select_mwes_def above_score_def take_above_nothing split: sum.splits)
  with assms(2) Suc show ?thesis by auto
qed

section \<open>The selection\<close>

lemma takeWhile_filter_sorted:
  fixes key :: "'a \<Rightarrow> 'k::linorder"
  assumes "sorted (map key xs)" and "\<And>x y. key x \<le> key y \<Longrightarrow> P y \<Longrightarrow> P x"
  shows "takeWhile P xs = filter P xs"
  using assms(1)
proof (induction xs)
  case Nil
  show ?case by simp
next
  case (Cons x xs)
  show ?case
  proof (cases "P x")
    case True
    with Cons show ?thesis by simp
  next
    case False
    have "\<not> P y" if "y \<in> set xs" for y
    proof
      assume "P y"
      moreover from Cons.prems that have "key x \<le> key y" by auto
      ultimately have "P x" using assms(2) by blast
      with False show False ..
    qed
    then have "filter P xs = []" by (simp add: filter_empty_conv)
    with False show ?thesis by simp
  qed
qed

lemma exceeds_mono: "s \<le> s' \<Longrightarrow> exceeds s m \<Longrightarrow> exceeds s' m"
  by (cases m) auto

lemma take_above_sorted:
  assumes "sorted (map (\<lambda>t. (- snd t, fst t)) scored)"
  shows "take_above scored m = map fst (filter (\<lambda>t. exceeds (snd t) m) scored)"
proof -
  have "takeWhile (\<lambda>t. exceeds (snd t) m) scored = filter (\<lambda>t. exceeds (snd t) m) scored"
    using assms
  proof (rule takeWhile_filter_sorted)
    fix x y :: "bigram \<times> real"
    assume "(- snd x, fst x) \<le> (- snd y, fst y)" and e: "exceeds (snd y) m"
    then have "snd y \<le> snd x" by (auto simp: less_eq_prod_def)
    then show "exceeds (snd x) m" using e by (rule exceeds_mono)
  qed
  then show ?thesis by (simp add: take_above_def)
qed

lemma score_ngrams_sorted:
  "score_ngrams self score_fn = Inr scored \<Longrightarrow> sorted (map (\<lambda>t. (- snd t, fst t)) scored)"
  by (auto simp: score_ngrams_def split: sum.splits)

section \<open>The domain of the association measure\<close>

text \<open>
  The smoothing by \<^verbatim>\<open>_SMALL\<close> keeps the measure defined on every contingency table
  without a negative cell: no division by zero and no logarithm of zero.
\<close>

lemma lr_term_defined:
  assumes n: "0 < sum_list cont" and o: "0 \<le> cont ! i"
    and x: "0 \<le> cont ! i + cont ! (i XOR 1)" and y: "0 \<le> cont ! i + cont ! (i XOR 2)"
  shows "\<exists>v. lr_term cont i = Inr v"
proof -
  define e where "e = (cont ! i + cont ! (i XOR 1)) * (cont ! i + cont ! (i XOR 2)) / sum_list cont"
  from n x y have "0 \<le> e" by (simp add: e_def)
  then have e: "0 < e + SMALL" by (simp add: SMALL_def add_nonneg_pos)
  with o have "0 \<le> cont ! i / (e + SMALL)" by simp
  then have q: "0 < cont ! i / (e + SMALL) + SMALL" by (simp add: SMALL_def add_nonneg_pos)
  from n have ed: "expected_value cont i = Inr e"
    by (simp add: expected_value_def py_div_def e_def)
  from e q show ?thesis
    by (simp add: lr_term_def ed py_div_def math_log_def Let_def)
qed

lemma py_sum_defined:
  "(\<And>x. x \<in> set xs \<Longrightarrow> \<exists>v. x = Inr v) \<Longrightarrow> \<exists>s. py_sum acc xs = Inr s"
proof (induction xs arbitrary: acc)
  case Nil
  show ?case by simp
next
  case (Cons x xs)
  from Cons.prems [of x] obtain v where "x = Inr v" by auto
  moreover from Cons.IH [of "acc + v"] Cons.prems obtain s where "py_sum (acc + v) xs = Inr s"
    by auto
  ultimately show ?case by simp
qed

lemma likelihood_ratio_defined:
  assumes "0 \<le> n_ii" and "n_ii \<le> n_ix" and "n_ii \<le> n_xi"
    and "n_ix + n_xi \<le> n_xx + n_ii" and "0 < n_xx"
  shows "\<exists>s. likelihood_ratio n_ii (n_ix, n_xi) n_xx = Inr s"
proof -
  define cont where "cont = contingency n_ii (n_ix, n_xi) n_xx"
  have c: "cont = [n_ii, n_xi - n_ii, n_ix - n_ii, n_xx - n_ii - (n_xi - n_ii) - (n_ix - n_ii)]"
    by (simp add: cont_def contingency_def)
  have "\<exists>v. lr_term cont i = Inr v" if "i \<in> {0, 1, 2, 3}" for i
    using that assms by (intro lr_term_defined) (auto simp: c)
  then have "\<exists>s. py_sum 0 (map (lr_term cont) [0, 1, 2, 3]) = Inr s"
    by (intro py_sum_defined) auto
  then show ?thesis
    by (auto simp: likelihood_ratio_def cont_def [symmetric])
qed

lemma fd_get_Nil: "fd_get [] k = 0"
  by (simp add: fd_get_def)

lemma fd_N_Nil: "fd_N [] = 0"
  by (simp add: fd_N_def)

lemma fd_get_inc: "fd_get (fd_inc k fd) k' = fd_get fd k' + (if k' = k then 1 else 0)"
  by (simp add: fd_get_def fd_inc_def update_conv')

lemma sum_snd_update:
  "sum_list (map snd (AList.update k (Suc (case map_of fd k of None \<Rightarrow> 0 | Some c \<Rightarrow> c)) fd)) =
     Suc (sum_list (map snd fd))"
  by (induction fd) auto

lemma fd_N_inc: "fd_N (fd_inc k fd) = fd_N fd + 1"
  by (simp add: fd_N_def fd_inc_def fd_get_def sum_snd_update)

lemma word_fd_foldl:
  "fd_get (word_fd (foldl count_window f ws)) a =
     fd_get (word_fd f) a + length (filter (\<lambda>w. fst w = Some a) ws)"
proof (induction ws arbitrary: f)
  case Nil
  show ?case by simp
next
  case (Cons w ws)
  obtain x y where w: "w = (x, y)" by (cases w)
  show ?case
    by (cases x; cases y) (auto simp: w Cons.IH fd_get_inc)
qed

lemma ngram_fd_foldl:
  "fd_get (ngram_fd (foldl count_window f ws)) (a, b) =
     fd_get (ngram_fd f) (a, b) + length (filter (\<lambda>w. w = (Some a, Some b)) ws)"
proof (induction ws arbitrary: f)
  case Nil
  show ?case by simp
next
  case (Cons w ws)
  obtain x y where w: "w = (x, y)" by (cases w)
  show ?case
    by (cases x; cases y) (auto simp: w Cons.IH fd_get_inc)
qed

lemma fd_N_foldl:
  "fd_N (word_fd (foldl count_window f ws)) =
     fd_N (word_fd f) + length (filter (\<lambda>w. fst w \<noteq> None) ws)"
proof (induction ws arbitrary: f)
  case Nil
  show ?case by simp
next
  case (Cons w ws)
  obtain x y where w: "w = (x, y)" by (cases w)
  show ?case
    by (cases x; cases y) (auto simp: w Cons.IH fd_N_inc)
qed

lemma length_filter_mono:
  "(\<And>x. x \<in> set xs \<Longrightarrow> P x \<Longrightarrow> Q x) \<Longrightarrow> length (filter P xs) \<le> length (filter Q xs)"
  by (induction xs) auto

lemma length_filter_disjoint:
  "(\<And>x. x \<in> set xs \<Longrightarrow> \<not> (P x \<and> Q x)) \<Longrightarrow> (\<And>x. x \<in> set xs \<Longrightarrow> P x \<or> Q x \<Longrightarrow> R x) \<Longrightarrow>
   length (filter P xs) + length (filter Q xs) \<le> length (filter R xs)"
  by (induction xs) auto

lemma windows_firsts: "map fst (zip (s @ [None]) (tl (s @ [None]))) = s"
  by (cases s) (simp_all add: map_fst_zip_take)

lemma windows_seconds: "map snd (zip (s @ [None]) (tl (s @ [None]))) = tl (s @ [None])"
  by (cases s) (simp_all add: map_snd_zip_take)

lemma windows_second_first:
  "length (filter (\<lambda>w. snd w = Some b) (zip (s @ [None]) (tl (s @ [None])))) \<le>
   length (filter (\<lambda>w. fst w = Some b) (zip (s @ [None]) (tl (s @ [None]))))"
proof -
  let ?ws = "zip (s @ [None]) (tl (s @ [None]))"
  have "length (filter (\<lambda>w. snd w = Some b) ?ws) =
      length (filter (\<lambda>x. x = Some b) (map snd ?ws))"
    by (simp add: filter_map comp_def)
  also have "\<dots> = length (filter (\<lambda>x. x = Some b) (tl (s @ [None])))"
    by (simp only: windows_seconds)
  also have "\<dots> \<le> length (filter (\<lambda>x. x = Some b) s)"
    by (cases s) simp_all
  also have "\<dots> = length (filter (\<lambda>x. x = Some b) (map fst ?ws))"
    by (simp only: windows_firsts)
  also have "\<dots> = length (filter (\<lambda>w. fst w = Some b) ?ws)"
    by (simp add: filter_map comp_def)
  finally show ?thesis .
qed

text \<open>The counts that the finder hands to the measure.\<close>

lemma finder_counts:
  fixes documents :: "sentence list"
  defines "f \<equiv> from_documents documents"
  shows "fd_get (ngram_fd f) (a, b) \<le> fd_get (word_fd f) a"
    and "fd_get (ngram_fd f) (a, b) \<le> fd_get (word_fd f) b"
    and "a \<noteq> b \<Longrightarrow> fd_get (word_fd f) a + fd_get (word_fd f) b \<le> fd_N (word_fd f)"
    and "fd_get (word_fd f) a \<le> fd_N (word_fd f)"
proof -
  define ws where "ws = ngrams_pad_right (build_new_documents documents)"
  have ws: "ws = zip (build_new_documents documents @ [None])
      (tl (build_new_documents documents @ [None]))"
    by (simp add: ws_def ngrams_pad_right_def Let_def)
  have w: "fd_get (word_fd f) x = length (filter (\<lambda>w. fst w = Some x) ws)" for x
    by (simp add: f_def from_documents_def from_words_def ws_def word_fd_foldl fd_get_Nil)
  have n: "fd_get (ngram_fd f) (a, b) = length (filter (\<lambda>w. w = (Some a, Some b)) ws)"
    by (simp add: f_def from_documents_def from_words_def ws_def ngram_fd_foldl fd_get_Nil)
  have N: "fd_N (word_fd f) = length (filter (\<lambda>w. fst w \<noteq> None) ws)"
    by (simp add: f_def from_documents_def from_words_def ws_def fd_N_foldl fd_N_Nil)
  show "fd_get (ngram_fd f) (a, b) \<le> fd_get (word_fd f) a"
    unfolding w n by (rule length_filter_mono) simp
  have "length (filter (\<lambda>w. w = (Some a, Some b)) ws) \<le>
      length (filter (\<lambda>w. snd w = Some b) ws)"
    by (rule length_filter_mono) simp
  also have "\<dots> \<le> length (filter (\<lambda>w. fst w = Some b) ws)"
    unfolding ws by (rule windows_second_first)
  finally show "fd_get (ngram_fd f) (a, b) \<le> fd_get (word_fd f) b"
    unfolding w n .
  show "fd_get (word_fd f) a + fd_get (word_fd f) b \<le> fd_N (word_fd f)" if "a \<noteq> b"
    unfolding w N using that by (intro length_filter_disjoint) auto
  show "fd_get (word_fd f) a \<le> fd_N (word_fd f)"
    unfolding w N by (rule length_filter_mono) simp
qed

text \<open>
  So a bigram of two different tokens always gets a score, and scoring raises nothing on a
  structure in which no token is followed by itself.
\<close>

lemma score_ngram_defined:
  assumes "w1 \<noteq> w2"
  shows "\<exists>r. score_ngram (from_documents documents) likelihood_ratio w1 w2 = Inr r"
proof -
  define f where "f = from_documents documents"
  note c =
    finder_counts(1) [where a = w1 and b = w2 and documents = documents, folded f_def]
    finder_counts(2) [where a = w1 and b = w2 and documents = documents, folded f_def]
    finder_counts(3) [where a = w1 and b = w2 and documents = documents, folded f_def]
    finder_counts(4) [where a = w1 and documents = documents, folded f_def]
  show ?thesis
  proof (cases "fd_get (ngram_fd f) (w1, w2) = 0")
    case True
    then show ?thesis by (simp add: score_ngram_def f_def [symmetric])
  next
    case False
    have "\<exists>s. likelihood_ratio (real (fd_get (ngram_fd f) (w1, w2)))
        (real (fd_get (word_fd f) w1), real (fd_get (word_fd f) w2))
        (real (fd_N (word_fd f))) = Inr s"
    proof (rule likelihood_ratio_defined)
      show "0 \<le> real (fd_get (ngram_fd f) (w1, w2))" by simp
      show "real (fd_get (ngram_fd f) (w1, w2)) \<le> real (fd_get (word_fd f) w1)"
        using c(1) by simp
      show "real (fd_get (ngram_fd f) (w1, w2)) \<le> real (fd_get (word_fd f) w2)"
        using c(2) by simp
      show "real (fd_get (word_fd f) w1) + real (fd_get (word_fd f) w2)
          \<le> real (fd_N (word_fd f)) + real (fd_get (ngram_fd f) (w1, w2))"
        using c(3) [OF assms] by linarith
      show "0 < real (fd_N (word_fd f))"
        using False c(1) c(4) by simp
    qed
    then show ?thesis
      using False by (auto simp: score_ngram_def f_def [symmetric] Let_def)
  qed
qed

text \<open>
  A bigram that the finder has counted stands in some sentence: the padding keeps the
  windows inside the sentences.
\<close>

lemma adjacent_in_sentence:
  "(Some a, Some b) \<in> set (zip (map Some d @ None # t) (tl (map Some d @ None # t))) \<Longrightarrow>
   (\<exists>i. Suc i < length d \<and> d ! i = a \<and> d ! Suc i = b) \<or>
   (Some a, Some b) \<in> set (zip t (tl t))"
proof (induction d)
  case Nil
  then show ?case by (cases t) auto
next
  case (Cons x d)
  show ?case
  proof (cases "(Some a, Some b) \<in> set (zip (map Some d @ None # t) (tl (map Some d @ None # t)))")
    case True
    from Cons.IH [OF True] show ?thesis
    proof
      assume "\<exists>i. Suc i < length d \<and> d ! i = a \<and> d ! Suc i = b"
      then obtain i where "Suc i < length d" "d ! i = a" "d ! Suc i = b" by blast
      then have "Suc (Suc i) < length (x # d) \<and> (x # d) ! Suc i = a \<and> (x # d) ! Suc (Suc i) = b"
        by simp
      then show ?thesis by blast
    next
      assume "(Some a, Some b) \<in> set (zip t (tl t))"
      then show ?thesis ..
    qed
  next
    case False
    with Cons.prems have h: "(Some a, Some b) = (Some x, hd (map Some d @ None # t))"
      by (cases d) auto
    then have "d \<noteq> []" by (cases d) auto
    with h have "Suc 0 < length (x # d) \<and> (x # d) ! 0 = a \<and> (x # d) ! Suc 0 = b"
      by (cases d) auto
    then show ?thesis by blast
  qed
qed

lemma adjacent_in_documents:
  "(Some a, Some b) \<in> set (zip (build_new_documents docs @ r) (tl (build_new_documents docs @ r))) \<Longrightarrow>
   (\<exists>sent \<in> set docs. \<exists>i. Suc i < length sent \<and> sent ! i = a \<and> sent ! Suc i = b) \<or>
   (Some a, Some b) \<in> set (zip r (tl r))"
proof (induction docs)
  case Nil
  then show ?case by (simp add: build_new_documents_def)
next
  case (Cons d docs)
  have b: "build_new_documents (d # docs) @ r = map Some d @ None # (build_new_documents docs @ r)"
    by (simp add: build_new_documents_def)
  from Cons.prems have "(Some a, Some b) \<in>
      set (zip (map Some d @ None # (build_new_documents docs @ r))
        (tl (map Some d @ None # (build_new_documents docs @ r))))"
    by (simp only: b)
  then have "(\<exists>i. Suc i < length d \<and> d ! i = a \<and> d ! Suc i = b) \<or>
      (Some a, Some b) \<in> set (zip (build_new_documents docs @ r) (tl (build_new_documents docs @ r)))"
    by (rule adjacent_in_sentence)
  then show ?case
  proof
    assume "\<exists>i. Suc i < length d \<and> d ! i = a \<and> d ! Suc i = b"
    then show ?thesis by auto
  next
    assume "(Some a, Some b) \<in> set (zip (build_new_documents docs @ r) (tl (build_new_documents docs @ r)))"
    from Cons.IH [OF this] show ?thesis by auto
  qed
qed

lemma ngram_count_positive:
  assumes "fd_get (ngram_fd (from_documents documents)) (a, b) \<noteq> 0"
  shows "\<exists>sent \<in> set documents. \<exists>i. Suc i < length sent \<and> sent ! i = a \<and> sent ! Suc i = b"
proof -
  let ?ws = "ngrams_pad_right (build_new_documents documents)"
  from assms have "length (filter (\<lambda>w. w = (Some a, Some b)) ?ws) \<noteq> 0"
    by (simp add: from_documents_def from_words_def ngram_fd_foldl fd_get_Nil)
  then have "(Some a, Some b) \<in> set ?ws"
    by (auto simp: filter_empty_conv)
  then have "(Some a, Some b) \<in> set (zip (build_new_documents documents @ [None])
      (tl (build_new_documents documents @ [None])))"
    by (simp add: ngrams_pad_right_def Let_def)
  from adjacent_in_documents [OF this] show ?thesis by simp
qed

lemma score_each_defined:
  assumes "\<And>sent i. sent \<in> set documents \<Longrightarrow> Suc i < length sent \<Longrightarrow> sent ! i \<noteq> sent ! Suc i"
  shows "\<exists>r. score_each (from_documents documents) likelihood_ratio tups = Inr r"
proof (induction tups)
  case Nil
  show ?case by simp
next
  case (Cons tup tups)
  obtain a b where t: "tup = (a, b)" by (cases tup)
  have "\<exists>r. score_ngram (from_documents documents) likelihood_ratio a b = Inr r"
  proof (cases "a = b")
    case False
    then show ?thesis by (rule score_ngram_defined)
  next
    case True
    have "fd_get (ngram_fd (from_documents documents)) (a, b) = 0"
    proof (rule ccontr)
      assume "fd_get (ngram_fd (from_documents documents)) (a, b) \<noteq> 0"
      from ngram_count_positive [OF this] obtain sent i
        where s: "sent \<in> set documents" "Suc i < length sent" "sent ! i = a" "sent ! Suc i = b"
        by blast
      from assms [OF s(1,2)] s(3,4) True show False by simp
    qed
    then show ?thesis by (simp add: score_ngram_def)
  qed
  with Cons.IH show ?case
    by (auto simp: t split: option.splits)
qed

lemma select_mwes_defined:
  assumes "\<And>sent i. sent \<in> set (flatten c) \<Longrightarrow> Suc i < length sent \<Longrightarrow> sent ! i \<noteq> sent ! Suc i"
  shows "\<exists>ms. select_mwes m c = Inr ms"
proof -
  from score_each_defined [of "flatten c", OF assms]
  obtain r where
    "score_each (from_documents (flatten c)) likelihood_ratio
       (map fst (ngram_fd (from_documents (flatten c)))) = Inr r"
    by blast
  then show ?thesis
    by (simp add: select_mwes_def above_score_def score_ngrams_def)
qed

section \<open>Evaluations for the examples\<close>

text \<open>
  Evaluations for the examples: a structure with one bigram, contracted once under the
  threshold \<^verbatim>\<open>float("-inf")\<close>, which every score exceeds.
\<close>

lemmas scorer_defs =
  select_mwes_def flatten_def from_documents_def build_new_documents_def
  from_words_def ngrams_pad_right_def fd_inc_def fd_get_def above_score_def
  score_ngrams_def take_above_def score_ngram_def fd_N_def likelihood_ratio_def
  contingency_def lr_term_def expected_value_def py_div_def math_log_def SMALL_def


lemma select_foo_bar:
  "select_mwes NegInf [[[''foo'', ''bar'']], [], [[''pok'']]] = Inr [(''foo'', ''bar'')]"
  by (simp add: scorer_defs)

lemma contract_foo_bar:
  "contract [(''foo'', ''bar'')] [[[''foo'', ''bar'']], [], [[''pok'']]] =
     [[[''foo_bar'']], [], [[''pok'']]]"
  by (simp add: contract_merge)

lemma one_iteration_foo_bar:
  "MWE_iterations (Suc 0) NegInf [[[''foo'', ''bar'']], [], [[''pok'']]] =
     Inr [[[''foo_bar'']], [], [[''pok'']]]"
  by (simp add: select_foo_bar contract_foo_bar)

lemma select_nan: "select_mwes NaN [[[''foo'', ''bar'']]] = Inr []"
  by (simp add: scorer_defs)

lemma initial_foo_bar: "initial_tokens example_toolkit False [''foo bar''] = [[[''foo'', ''bar'']]]"
  by (simp add: initial_tokens_def example_toolkit_def)

lemma initial_three_documents:
  "initial_tokens example_toolkit False three_documents =
     [[[''foo'', ''bar'', ''pok'', ''wer'', ''pok'', ''pok'', ''foo'', ''bar'', ''wer'',
        ''qwe'', ''pok'', ''asd'', ''fgh'']],
      [],
      [[''fgh'', ''asd'', ''foo'', ''pok'', ''qwe'', ''pok'', ''wer'', ''pok'', ''foo'',
        ''bar'', ''pok'', ''pok'', ''wer'']]]"
  by (simp add: three_documents_def initial_tokens_def example_toolkit_def)




section \<open>Properties of the specification\<close>



text \<open>
  C2, counterexample. The score of the bigram of the one-sentence corpus \<^verbatim>\<open>foo bar\<close> is
  \<open>foo_bar_score\<close>. With exactly this number as \<^verbatim>\<open>min_MWE_PMI\<close> the bigram is not
  selected, and \<^verbatim>\<open>fit\<close> returns the structure uncontracted.
\<close>

theorem threshold_tie_counterexample:
  "score_ngrams (from_documents [[''foo'', ''bar'']]) likelihood_ratio =
     Inr [((''foo'', ''bar''), foo_bar_score)] \<and>
   above_score (from_documents [[''foo'', ''bar'']]) likelihood_ratio (Finite foo_bar_score) =
     Inr [] \<and>
   NLTKTokenizer_fit example_toolkit (config False 2 (Finite foo_bar_score)) [''foo bar''] =
     Inr ((config False 2 (Finite foo_bar_score))
       \<lparr>tokens_by_sent_by_doc_attr := Some [[[''foo'', ''bar'']]]\<rparr>)"
proof -
  have s: "score_ngrams (from_documents [[''foo'', ''bar'']]) likelihood_ratio =
      Inr [((''foo'', ''bar''), foo_bar_score)]"
    by (simp add: foo_bar_score_def scorer_defs)
  then have a: "above_score (from_documents [[''foo'', ''bar'']]) likelihood_ratio
      (Finite foo_bar_score) = Inr []"
    by (simp add: above_score_def take_above_def)
  then have "select_mwes (Finite foo_bar_score) [[[''foo'', ''bar'']]] = Inr []"
    by (simp add: select_mwes_def flatten_def)
  then have "NLTKTokenizer_fit example_toolkit (config False 2 (Finite foo_bar_score))
      [''foo bar''] =
     Inr ((config False 2 (Finite foo_bar_score))
       \<lparr>tokens_by_sent_by_doc_attr := Some [[[''foo'', ''bar'']]]\<rparr>)"
    by (simp add: NLTKTokenizer_fit_def config_def initial_foo_bar numeral_2_eq_2)
  with s a show ?thesis by simp
qed

text \<open>
  C2, amended. The selection is the scored bigrams whose score is strictly greater than
  \<^verbatim>\<open>min_MWE_PMI\<close>, in the order of the scored list (by decreasing score); a bigram whose
  score equals the threshold is left out.
\<close>

theorem above_score_is_strict:
  assumes "score_ngrams self score_fn = Inr scored"
  shows "above_score self score_fn (Finite t) =
      Inr (map fst (filter (\<lambda>p. t < snd p) scored)) \<and>
    (\<forall>ms. above_score self score_fn (Finite t) = Inr ms \<longrightarrow>
       set ms = {ng. \<exists>s. (ng, s) \<in> set scored \<and> t < s})"
proof -
  from assms have "sorted (map (\<lambda>t. (- snd t, fst t)) scored)" by (rule score_ngrams_sorted)
  then have "take_above scored (Finite t) =
      map fst (filter (\<lambda>p. exceeds (snd p) (Finite t)) scored)"
    by (rule take_above_sorted)
  with assms have a: "above_score self score_fn (Finite t) =
      Inr (map fst (filter (\<lambda>p. t < snd p) scored))"
    by (simp add: above_score_def)
  have "set (map fst (filter (\<lambda>p. t < snd p) scored)) =
      {ng. \<exists>s. (ng, s) \<in> set scored \<and> t < s}"
    by force
  with a show ?thesis by simp
qed

theorem above_score_is_strict_witness:
  "score_ngrams (from_documents [[''foo'', ''bar'']]) likelihood_ratio =
     Inr [((''foo'', ''bar''), foo_bar_score)] \<and>
   above_score (from_documents [[''foo'', ''bar'']]) likelihood_ratio (Finite foo_bar_score) =
     Inr [] \<and>
   above_score (from_documents [[''foo'', ''bar'']]) likelihood_ratio
       (Finite (foo_bar_score - 1)) = Inr [(''foo'', ''bar'')]"
proof -
  have s: "score_ngrams (from_documents [[''foo'', ''bar'']]) likelihood_ratio =
      Inr [((''foo'', ''bar''), foo_bar_score)]"
    by (simp add: foo_bar_score_def scorer_defs)
  from above_score_is_strict [OF s, of foo_bar_score]
    above_score_is_strict [OF s, of "foo_bar_score - 1"] s
  show ?thesis by simp
qed

text \<open>
  C3. With \<^verbatim>\<open>max_MWE_iterations = 0\<close> the loop body never runs: \<^verbatim>\<open>fit\<close> returns, and
  the stored structure is the initial sentence and word tokenization of the input,
  whatever the scorer would have done with it.
\<close>

theorem fit_zero_iterations:
  assumes "max_MWE_iterations self = 0"
  shows "NLTKTokenizer_fit tk self X =
    Inr (self\<lparr>tokens_by_sent_by_doc_attr := Some (initial_tokens tk (lower_case self) X)\<rparr>)"
  using assms by (simp add: NLTKTokenizer_fit_def)

theorem fit_zero_iterations_witness:
  "max_MWE_iterations (config False 0 (Finite 12)) = 0 \<and>
   NLTKTokenizer_fit example_toolkit (config False 0 (Finite 12)) [''a a''] =
     Inr ((config False 0 (Finite 12))\<lparr>tokens_by_sent_by_doc_attr := Some [[[''a'', ''a'']]]\<rparr>)"
  using fit_zero_iterations [of "config False 0 (Finite 12)" example_toolkit "[''a a'']"]
  by (simp add: config_def initial_tokens_def example_toolkit_def)

text \<open>
  C4. Whenever the loop returns, the structure after \<open>i\<close> allowed iterations and the one
  after \<open>i + 1\<close> both have the documents of the structure the loop started from, each
  document its sentences, and a sentence has at most as many tokens after iteration
  \<open>i + 1\<close> as after iteration \<open>i\<close>, and there at most as many as at the start.
\<close>

theorem contraction_keeps_documents_and_sentences:
  assumes "MWE_iterations i m c = Inr ci" and "MWE_iterations (Suc i) m c = Inr cj"
  shows "length ci = length c \<and> length cj = length c \<and>
    (\<forall>d<length c.
       length (ci ! d) = length (c ! d) \<and> length (cj ! d) = length (c ! d) \<and>
       (\<forall>s<length (c ! d).
          length (cj ! d ! s) \<le> length (ci ! d ! s) \<and>
          length (ci ! d ! s) \<le> length (c ! d ! s)))"
proof -
  from assms(1) have a: "shrinks ci c" by (rule MWE_iterations_shrinks)
  from assms have "MWE_iterations (Suc 0) m ci = Inr cj"
    by (simp only: MWE_iterations_Suc [of i] sum.case)
  then have b: "shrinks cj ci" by (rule MWE_iterations_shrinks)
  note da = shrinksD [OF a] and db = shrinksD [OF b]
  show ?thesis
  proof (intro conjI allI impI)
    show "length ci = length c" by (rule da(1))
    show "length cj = length c" using da(1) db(1) by simp
  next
    fix d assume d: "d < length c"
    show "length (ci ! d) = length (c ! d)" using d by (rule da(2))
    show "length (cj ! d) = length (c ! d)" using d da(1) da(2) db(2) by simp
    fix s assume s: "s < length (c ! d)"
    show "length (ci ! d ! s) \<le> length (c ! d ! s)" using d s by (rule da(3))
    show "length (cj ! d ! s) \<le> length (ci ! d ! s)"
      using d s da(1) da(2) [OF d] by (intro db(3)) simp_all
  qed
qed

theorem contraction_keeps_documents_and_sentences_witness:
  "MWE_iterations 0 NegInf [[[''foo'', ''bar'']], [], [[''pok'']]] =
     Inr [[[''foo'', ''bar'']], [], [[''pok'']]] \<and>
   MWE_iterations (Suc 0) NegInf [[[''foo'', ''bar'']], [], [[''pok'']]] =
     Inr [[[''foo_bar'']], [], [[''pok'']]] \<and>
   length [[[''foo_bar'']], [], [[''pok'']]] = length [[[''foo'', ''bar'']], [], [[''pok'']]] \<and>
   length ([[[''foo_bar'']], [], [[''pok'']]] ! 0) = length ([[[''foo'', ''bar'']], [], [[''pok'']]] ! 0) \<and>
   length ([[[''foo_bar'']], [], [[''pok'']]] ! 0 ! 0) \<le> length ([[[''foo'', ''bar'']], [], [[''pok'']]] ! 0 ! 0)"
proof -
  have z: "MWE_iterations 0 NegInf [[[''foo'', ''bar'']], [], [[''pok'']]] =
      Inr [[[''foo'', ''bar'']], [], [[''pok'']]]" by simp
  from contraction_keeps_documents_and_sentences [OF z one_iteration_foo_bar]
  show ?thesis using one_iteration_foo_bar by simp
qed



text \<open>
  C6, counterexample. A negative \<^verbatim>\<open>max_MWE_iterations\<close> and a NaN \<^verbatim>\<open>min_MWE_PMI\<close> are
  both accepted: \<^verbatim>\<open>fit\<close> returns the initial structure.
\<close>

theorem configuration_error_counterexample:
  "NLTKTokenizer_fit example_toolkit (config False (- 1) (Finite 12)) [''foo bar''] =
     Inr ((config False (- 1) (Finite 12))
       \<lparr>tokens_by_sent_by_doc_attr := Some [[[''foo'', ''bar'']]]\<rparr>) \<and>
   NLTKTokenizer_fit example_toolkit (config False 2 NaN) [''foo bar''] =
     Inr ((config False 2 NaN)\<lparr>tokens_by_sent_by_doc_attr := Some [[[''foo'', ''bar'']]]\<rparr>)"
proof -
  show ?thesis
    by (simp add: NLTKTokenizer_fit_def config_def initial_foo_bar select_nan numeral_2_eq_2)
qed

text \<open>
  C6, amended. \<^verbatim>\<open>fit\<close> validates nothing and never raises a ConfigurationError. With
  \<^verbatim>\<open>max_MWE_iterations < 0\<close> it runs no iteration and returns the initial structure, as it
  does with 0. With a \<^verbatim>\<open>min_MWE_PMI\<close> that is NaN or plus infinity it contracts nothing:
  whenever it returns, it returns the initial structure.
\<close>

theorem fit_raises_no_configuration_error:
  "NLTKTokenizer_fit tk self X \<noteq> Inl ConfigurationError \<and>
   (max_MWE_iterations self < 0 \<longrightarrow>
      NLTKTokenizer_fit tk self X =
        Inr (self\<lparr>tokens_by_sent_by_doc_attr :=
               Some (initial_tokens tk (lower_case self) X)\<rparr>)) \<and>
   (min_MWE_PMI self = NaN \<or> min_MWE_PMI self = PosInf \<longrightarrow>
      (\<forall>self'. NLTKTokenizer_fit tk self X = Inr self' \<longrightarrow>
         self' = self\<lparr>tokens_by_sent_by_doc_attr :=
                   Some (initial_tokens tk (lower_case self) X)\<rparr>))"
proof (intro conjI allI impI)
  show "NLTKTokenizer_fit tk self X \<noteq> Inl ConfigurationError"
    by (auto simp: NLTKTokenizer_fit_def split: sum.splits dest: MWE_iterations_error)
next
  assume "max_MWE_iterations self < 0"
  then show "NLTKTokenizer_fit tk self X =
      Inr (self\<lparr>tokens_by_sent_by_doc_attr := Some (initial_tokens tk (lower_case self) X)\<rparr>)"
    by (simp add: NLTKTokenizer_fit_def)
next
  fix self'
  assume m: "min_MWE_PMI self = NaN \<or> min_MWE_PMI self = PosInf"
    and f: "NLTKTokenizer_fit tk self X = Inr self'"
  show "self' = self\<lparr>tokens_by_sent_by_doc_attr :=
      Some (initial_tokens tk (lower_case self) X)\<rparr>"
  proof (cases "MWE_iterations (nat (max_MWE_iterations self)) (min_MWE_PMI self)
      (initial_tokens tk (lower_case self) X)")
    case (Inl e)
    with f show ?thesis by (simp add: NLTKTokenizer_fit_def)
  next
    case (Inr c)
    from MWE_iterations_nothing [OF m Inr] Inr f show ?thesis
      by (simp add: NLTKTokenizer_fit_def)
  qed
qed

theorem fit_raises_no_configuration_error_witness:
  "max_MWE_iterations (config False (- 1) (Finite 12)) < 0 \<and>
   min_MWE_PMI (config False 2 NaN) = NaN \<and>
   NLTKTokenizer_fit example_toolkit (config False (- 1) (Finite 12)) [''foo bar''] =
     Inr ((config False (- 1) (Finite 12))
       \<lparr>tokens_by_sent_by_doc_attr := Some [[[''foo'', ''bar'']]]\<rparr>) \<and>
   NLTKTokenizer_fit example_toolkit (config False 2 NaN) [''foo bar''] =
     Inr ((config False 2 NaN)\<lparr>tokens_by_sent_by_doc_attr := Some [[[''foo'', ''bar'']]]\<rparr>)"
proof -
  have f: "NLTKTokenizer_fit example_toolkit (config False 2 NaN) [''foo bar''] =
     Inr ((config False 2 NaN)\<lparr>tokens_by_sent_by_doc_attr := Some [[[''foo'', ''bar'']]]\<rparr>)"
    by (simp add: NLTKTokenizer_fit_def config_def initial_foo_bar select_nan numeral_2_eq_2)
  from fit_raises_no_configuration_error
      [of example_toolkit "config False (- 1) (Finite 12)" "[''foo bar'']"]
    fit_raises_no_configuration_error [of example_toolkit "config False 2 NaN" "[''foo bar'']"]
    f
  show ?thesis by (simp add: config_def initial_foo_bar)
qed




text \<open>
  C8. The initial structure has one document for each element of the input, and so has the
  structure that \<^verbatim>\<open>fit\<close> stores whenever it returns. Where the input is the empty
  string the document has no sentence and no token, provided the sentence splitter
  returns no sentence for the empty string (as NLTK's \<^verbatim>\<open>sent_tokenize\<close> does).
\<close>

theorem one_document_per_input:
  "length (initial_tokens tk lc X) = length X \<and>
   (sent_tokenize tk '''' = [] \<longrightarrow>
      (\<forall>i<length X. X ! i = '''' \<longrightarrow>
         initial_tokens tk lc X ! i = [] \<and> flatten (initial_tokens tk lc X ! i) = [])) \<and>
   (\<forall>self'. NLTKTokenizer_fit tk self X = Inr self' \<longrightarrow>
      (\<exists>c. tokens_by_sent_by_doc_attr self' = Some c \<and> length c = length X \<and>
         (sent_tokenize tk '''' = [] \<longrightarrow>
            (\<forall>i<length X. X ! i = '''' \<longrightarrow> c ! i = [] \<and> flatten (c ! i) = []))))"
proof (intro conjI allI impI)
  show "length (initial_tokens tk lc X) = length X" by (rule length_initial_tokens)
next
  fix i assume "sent_tokenize tk '''' = []" "i < length X" "X ! i = ''''"
  then have "initial_tokens tk lc X ! i = []" by (rule initial_tokens_empty_document)
  then show "initial_tokens tk lc X ! i = []" "flatten (initial_tokens tk lc X ! i) = []"
    by (simp_all add: flatten_def)
next
  fix self' assume "NLTKTokenizer_fit tk self X = Inr self'"
  from fit_result [OF this] obtain c
    where c: "tokens_by_sent_by_doc_attr self' = Some c"
      and s: "shrinks c (initial_tokens tk (lower_case self) X)" by blast
  note d = shrinksD [OF s]
  have l: "length c = length X" using d(1) by (simp add: length_initial_tokens)
  have e: "c ! i = [] \<and> flatten (c ! i) = []"
    if "sent_tokenize tk '''' = []" "i < length X" "X ! i = ''''" for i
  proof -
    from that have "initial_tokens tk (lower_case self) X ! i = []"
      by (rule initial_tokens_empty_document)
    with d(2) [of i] that(2) have "c ! i = []" by (simp add: length_initial_tokens)
    then show ?thesis by (simp add: flatten_def)
  qed
  from c l e
  show "\<exists>c. tokens_by_sent_by_doc_attr self' = Some c \<and> length c = length X \<and>
      (sent_tokenize tk '''' = [] \<longrightarrow>
         (\<forall>i<length X. X ! i = '''' \<longrightarrow> c ! i = [] \<and> flatten (c ! i) = []))"
    by blast
qed

theorem one_document_per_input_witness:
  "sent_tokenize example_toolkit '''' = [] \<and>
   length three_documents = 3 \<and> three_documents ! 1 = '''' \<and>
   length (initial_tokens example_toolkit False three_documents) = 3 \<and>
   initial_tokens example_toolkit False three_documents ! 1 = [] \<and>
   flatten (initial_tokens example_toolkit False three_documents ! 1) = [] \<and>
   NLTKTokenizer_fit example_toolkit (config False 0 (Finite 12)) three_documents =
     Inr ((config False 0 (Finite 12))
       \<lparr>tokens_by_sent_by_doc_attr :=
          Some (initial_tokens example_toolkit False three_documents)\<rparr>)"
proof -
  have s: "sent_tokenize example_toolkit '''' = []" by (simp add: example_toolkit_def)
  have x: "length three_documents = 3" "three_documents ! 1 = ''''"
    by (simp_all add: three_documents_def)
  have f: "NLTKTokenizer_fit example_toolkit (config False 0 (Finite 12)) three_documents =
     Inr ((config False 0 (Finite 12))
       \<lparr>tokens_by_sent_by_doc_attr :=
          Some (initial_tokens example_toolkit False three_documents)\<rparr>)"
    by (simp add: NLTKTokenizer_fit_def config_def)
  from one_document_per_input [of example_toolkit False three_documents] s x f
  show ?thesis by (simp add: flatten_def)
qed

text \<open>
  C9. The scorer does raise. In the corpus of the one sentence \<^verbatim>\<open>a a\<close> the bigram
  \<^verbatim>\<open>(a, a)\<close> occurs once and its token twice among two tokens, so the fourth cell of the
  contingency table is \<open>2 - 2 - 2 + 1 = - 1\<close>; its expected value is 0, and the argument
  of the logarithm is negative. \<^verbatim>\<open>math.log\<close> raises, and so does \<^verbatim>\<open>fit\<close>. (By
  \<open>select_mwes_defined\<close> a bigram of one repeated token is the only way to an error.)
\<close>

theorem scorer_raises_on_repeated_token:
  "contingency 1 (2, 2) 2 = [1, 1, 1, - 1] \<and>
   score_ngram (from_documents [[''a'', ''a'']]) likelihood_ratio ''a'' ''a'' = Inl ValueError \<and>
   select_mwes (Finite 12) [[[''a'', ''a'']]] = Inl ValueError \<and>
   NLTKTokenizer_fit example_toolkit (config False 2 (Finite 12)) [''a a''] = Inl ValueError"
proof -
  have c: "contingency 1 (2, 2) 2 = [1, 1, 1, - 1]"
    by (simp add: contingency_def)
  have s: "score_ngram (from_documents [[''a'', ''a'']]) likelihood_ratio ''a'' ''a'' =
      Inl ValueError"
    by (simp add: scorer_defs)
  have m: "select_mwes (Finite 12) [[[''a'', ''a'']]] = Inl ValueError"
    by (simp add: scorer_defs)
  have i: "initial_tokens example_toolkit False [''a a''] = [[[''a'', ''a'']]]"
    by (simp add: initial_tokens_def example_toolkit_def)
  have "NLTKTokenizer_fit example_toolkit (config False 2 (Finite 12)) [''a a''] =
      Inl ValueError"
    by (simp add: NLTKTokenizer_fit_def config_def i m numeral_2_eq_2)
  with c s m show ?thesis by simp
qed

text \<open>
  C10. \<^verbatim>\<open>StanzaTokenizer\<close> inherits \<^verbatim>\<open>fit\<close> and \<^verbatim>\<open>fit_transform\<close> from
  \<^verbatim>\<open>BaseTokenizer\<close>, whose \<^verbatim>\<open>fit\<close> only stores \<^verbatim>\<open>None\<close>: for every document
  collection, and whatever the attribute held before, \<^verbatim>\<open>fit_transform\<close> returns \<^verbatim>\<open>None\<close>
  and no token structure.
\<close>

theorem StanzaTokenizer_fit_transform_None:
  "StanzaTokenizer_fit_transform self X = None"
  by (simp add: StanzaTokenizer_fit_transform_def BaseTokenizer_fit_transform_def
      BaseTokenizer_fit_def)

theorem StanzaTokenizer_fit_transform_None_witness:
  "StanzaTokenizer_fit_transform \<lparr>tokens_by_sent_by_doc_attr = Some [[[''foo'']]]\<rparr>
     three_documents = None"
  by (rule StanzaTokenizer_fit_transform_None)

end
